theory Spec2Isabelle
  imports Main "HOL-Library.List_Lexorder"
begin

section \<open>Python strings\<close>

text \<open>
  A Python \<open>str\<close> is a sequence of Unicode code points, and every operation of
  \<open>qualifier.py\<close> on strings (iteration, \<open>==\<close>, \<open>split\<close>, \<open>strip\<close>,
  \<open>join\<close>) works code point by code point. A string is therefore a list of code
  points, a code point being a natural number; \<open>str_of\<close> reads an ASCII literal.
\<close>

type_synonym codepoint = nat
type_synonym pystr = "codepoint list"

definition str_of :: "string \<Rightarrow> pystr" where
  "str_of s = map of_char s"

text \<open>
  Python's \<open>str.isspace\<close> on one character, which is what \<open>str.strip()\<close> without
  argument removes: U+0009..U+000D, U+001C..U+0020, U+0085, U+00A0, U+1680,
  U+2000..U+200A, U+2028, U+2029, U+202F, U+205F, U+3000.
\<close>

definition isspace :: "codepoint \<Rightarrow> bool" where
  "isspace c \<longleftrightarrow>
     (0x09 \<le> c \<and> c \<le> 0x0D) \<or> (0x1C \<le> c \<and> c \<le> 0x20) \<or> c = 0x85 \<or> c = 0xA0 \<or>
     c = 0x1680 \<or> (0x2000 \<le> c \<and> c \<le> 0x200A) \<or> c = 0x2028 \<or> c = 0x2029 \<or>
     c = 0x202F \<or> c = 0x205F \<or> c = 0x3000"

text \<open>\<open>s.strip()\<close>: drop the leading and the trailing whitespace characters.\<close>

definition strip :: "pystr \<Rightarrow> pystr" where
  "strip s = rev (dropWhile isspace (rev (dropWhile isspace s)))"

text \<open>
  \<open>s.split(sep)\<close> for a one-character separator: cut at every occurrence of \<open>sep\<close>,
  keeping empty pieces; a string with \<open>n\<close> separators gives \<open>n + 1\<close> pieces, and the
  empty string gives the one piece \<open>""\<close>. \<open>acc\<close> is the piece being read.
\<close>

fun split_acc :: "codepoint \<Rightarrow> pystr \<Rightarrow> pystr \<Rightarrow> pystr list" where
  "split_acc sep acc [] = [acc]"
| "split_acc sep acc (c # cs) =
     (if c = sep then acc # split_acc sep [] cs else split_acc sep (acc @ [c]) cs)"

definition split_sep :: "codepoint \<Rightarrow> pystr \<Rightarrow> pystr list" where
  "split_sep sep s = split_acc sep [] s"

text \<open>\<open>sep.join(pieces)\<close> for a one-character separator.\<close>

fun join_sep :: "codepoint \<Rightarrow> pystr list \<Rightarrow> pystr" where
  "join_sep sep [] = []"
| "join_sep sep [p] = p"
| "join_sep sep (p # q # ps) = p @ sep # join_sep sep (q # ps)"

section \<open>The selector: \<open>Mode\<close>, \<open>Selector\<close>\<close>

datatype Mode = ID | CLASS | TAG

record Selector =
  id' :: pystr
  klass :: "pystr set"
  tag :: pystr

text \<open>
  The field \<open>id'\<close> is the source's \<open>id_\<close>. \<open>Selector_init\<close> is \<open>Selector()\<close>, the
  dataclass defaults.
\<close>

definition Selector_init :: Selector where
  "Selector_init = \<lparr>id' = [], klass = {}, tag = []\<rparr>"

text \<open>
  \<open>Selector.update_by_mode(self, mode, chars)\<close> mutates the selector and clears the
  buffer \<open>chars\<close>; the model returns both. With an empty buffer it returns at once.
\<close>

definition update_by_mode :: "Selector \<Rightarrow> Mode \<Rightarrow> pystr \<Rightarrow> Selector \<times> pystr" where
  "update_by_mode self mode chars =
     (if length chars = 0 then (self, chars)
      else
        let val = chars in
        (case mode of
           ID \<Rightarrow> self\<lparr>id' := val\<rparr>
         | CLASS \<Rightarrow> self\<lparr>klass := insert val (klass self)\<rparr>
         | TAG \<Rightarrow> self\<lparr>tag := val\<rparr>,
         []))"

text \<open>
  The loop \<open>for ch in selector\<close> of \<open>Selector.from_str\<close>, on the state
  \<open>(sel, mode, chars)\<close>.
\<close>

fun from_str_loop :: "pystr \<Rightarrow> Selector \<Rightarrow> Mode \<Rightarrow> pystr \<Rightarrow> Selector \<times> Mode \<times> pystr" where
  "from_str_loop [] sel mode chars = (sel, mode, chars)"
| "from_str_loop (ch # rest) sel mode chars =
     (if ch = of_char CHR ''.'' then
        (case update_by_mode sel mode chars of
           (sel', chars') \<Rightarrow> from_str_loop rest sel' CLASS chars')
      else if ch = of_char CHR ''#'' then
        (case update_by_mode sel mode chars of
           (sel', chars') \<Rightarrow> from_str_loop rest sel' ID chars')
      else from_str_loop rest sel mode (chars @ [ch]))"

definition Selector_from_str :: "pystr \<Rightarrow> Selector" where
  "Selector_from_str selector =
     (case from_str_loop selector Selector_init TAG [] of
        (sel, mode, chars) \<Rightarrow> fst (update_by_mode sel mode chars))"

section \<open>The tree\<close>

text \<open>
  Modelled from the spec: the class \<open>Node\<close> comes from a module \<open>node\<close> that is not
  part of the sources. It has a tag name (a string), an attribute mapping from string
  keys to string values, and an ordered sequence of child nodes.
\<close>

datatype Node = Node (tag: pystr) (attributes: "pystr \<rightharpoonup> pystr") (children: "Node list")

section \<open>Matching\<close>

text \<open>
  The local \<open>class_set\<close> of \<open>Selector.match_node\<close>:
  \<open>node.attributes.get("class", "").split(" ")\<close>, every piece stripped, the empty
  ones dropped.
\<close>

definition class_set :: "Node \<Rightarrow> pystr set" where
  "class_set node =
     (let classes =
            split_sep (of_char CHR '' '')
              (case attributes node (str_of ''class'') of None \<Rightarrow> [] | Some v \<Rightarrow> v)
      in set (filter (\<lambda>cs. cs \<noteq> []) (map strip classes)))"

text \<open>
  \<open>Selector.match_node\<close>. \<open>attributes.get("id")\<close> is \<open>None\<close> for a node without
  \<open>id\<close>, and a string never equals \<open>None\<close>.
\<close>

definition Selector_match_node :: "Selector \<Rightarrow> Node \<Rightarrow> bool" where
  "Selector_match_node self node =
     (let matched_tag = \<not> (Selector.tag self \<noteq> [] \<and> Selector.tag self \<noteq> Node.tag node);
          node_id = attributes node (str_of ''id'');
          matched_id = \<not> (id' self \<noteq> [] \<and> Some (id' self) \<noteq> node_id);
          matched_class = \<not> (klass self \<noteq> {} \<and> \<not> klass self \<subseteq> class_set node)
      in matched_tag \<and> matched_id \<and> matched_class)"

section \<open>Selector lists: \<open>Selectors\<close>\<close>

record Selectors =
  items :: "Selector list"

definition Selectors_from_str :: "pystr \<Rightarrow> Selectors" where
  "Selectors_from_str selectors_str =
     (let selectors = split_sep (of_char CHR '','') selectors_str
      in \<lparr>items = map Selector_from_str (map strip selectors)\<rparr>)"

definition Selectors_match_node :: "Selectors \<Rightarrow> Node \<Rightarrow> bool" where
  "Selectors_match_node self node = list_ex (\<lambda>sel. Selector_match_node sel node) (items self)"

section \<open>The traversal\<close>

text \<open>
  \<open>verify_node\<close> appends to the list \<open>matched\<close> it is given; the model takes the
  list and returns it updated. The \<open>for\<close> loop over the children is a left fold.
\<close>

function verify_node :: "Node \<Rightarrow> Selectors \<Rightarrow> Node list \<Rightarrow> Node list" where
  "verify_node node selector matched =
     foldl (\<lambda>m child. verify_node child selector m)
       (if Selectors_match_node selector node then matched @ [node] else matched)
       (children node)"
  by pat_completeness auto
termination
proof (relation "measure (\<lambda>(node, selector, matched). size node)")
  show "wf (measure (\<lambda>(node, selector, matched). size node))"
    by simp
next
  fix node :: Node and selector :: Selectors and matched a :: "Node list" and child :: Node
  assume "child \<in> set (children node)"
  then have "size child < size node"
    by (cases node) (auto simp: less_Suc_eq_le size_list_estimation')
  then show "((child, selector, a), (node, selector, matched))
      \<in> measure (\<lambda>(node, selector, matched). size node)"
    by simp
qed

declare verify_node.simps [simp del]

definition query_selector_all :: "Node \<Rightarrow> pystr \<Rightarrow> Node list" where
  "query_selector_all node selector = verify_node node (Selectors_from_str selector) []"

section \<open>The traversal on a store\<close>

text \<open>
  Python nodes and lists are mutable objects with an identity, and \<open>verify_node\<close>
  appends to a list it shares with its caller. To speak of what a query changes, the
  same code is modelled on a store: a list of objects, an address being an index. A
  \<open>Node_obj\<close> holds the tag, the attribute mapping and the address of the list of its
  children; a \<open>List_obj\<close> holds the addresses of its elements. A new object goes to
  the end of the store.

  The only statement of \<open>qualifier.py\<close> that writes to an object it did not create
  is \<open>matched.append(node)\<close>: \<open>list_append\<close>. \<open>children_loop_st\<close> is the loop
  \<open>for child in node.children\<close>, which reads the list object again at every step, as
  Python's list iterator does. A store may hold a cycle, so both functions take fuel;
  \<open>Out_of_fuel\<close> stands for a run that has not returned, \<open>Bad_object\<close> for an
  address that does not hold an object of the class the code expects.
  \<open>Selector.match_node\<close> reads the tag and the attributes of the node only, so it
  is given the node without its children. The selectors that the parser builds are
  values of the model, not objects of the store: no node refers to them.
\<close>

type_synonym addr = nat

datatype obj =
    Node_obj pystr "pystr \<rightharpoonup> pystr" addr
  | List_obj "addr list"

type_synonym store = "obj list"

datatype failure = Out_of_fuel | Bad_object

definition lookup :: "store \<Rightarrow> addr \<Rightarrow> obj option" where
  "lookup h a = (if a < length h then Some (h ! a) else None)"

definition list_append :: "store \<Rightarrow> addr \<Rightarrow> addr \<Rightarrow> failure + store" where
  "list_append h l x =
     (case lookup h l of
        Some (List_obj xs) \<Rightarrow> Inr (h[l := List_obj (xs @ [x])])
      | _ \<Rightarrow> Inl Bad_object)"

fun verify_node_st :: "nat \<Rightarrow> store \<Rightarrow> addr \<Rightarrow> Selectors \<Rightarrow> addr \<Rightarrow> failure + store"
  and children_loop_st :: "nat \<Rightarrow> store \<Rightarrow> addr \<Rightarrow> nat \<Rightarrow> Selectors \<Rightarrow> addr \<Rightarrow> failure + store" where
  "verify_node_st 0 h node selector matched = Inl Out_of_fuel"
| "verify_node_st (Suc fuel) h node selector matched =
     (case lookup h node of
        Some (Node_obj tg attrs ch) \<Rightarrow>
          (case (if Selectors_match_node selector (Node tg attrs [])
                 then list_append h matched node else Inr h) of
             Inl e \<Rightarrow> Inl e
           | Inr h1 \<Rightarrow>
               (case lookup h1 node of
                  Some (Node_obj tg1 attrs1 ch1) \<Rightarrow> children_loop_st fuel h1 ch1 0 selector matched
                | _ \<Rightarrow> Inl Bad_object))
      | _ \<Rightarrow> Inl Bad_object)"
| "children_loop_st 0 h ch i selector matched = Inl Out_of_fuel"
| "children_loop_st (Suc fuel) h ch i selector matched =
     (case lookup h ch of
        Some (List_obj xs) \<Rightarrow>
          (if i < length xs then
             (case verify_node_st fuel h (xs ! i) selector matched of
                Inl e \<Rightarrow> Inl e
              | Inr h' \<Rightarrow> children_loop_st fuel h' ch (Suc i) selector matched)
           else Inr h)
      | _ \<Rightarrow> Inl Bad_object)"

definition query_selector_all_st :: "nat \<Rightarrow> store \<Rightarrow> addr \<Rightarrow> pystr \<Rightarrow> failure + (addr \<times> store)" where
  "query_selector_all_st fuel h node selector =
     (let matched_nodes = length h;
          h0 = h @ [List_obj []]
      in case verify_node_st fuel h0 node (Selectors_from_str selector) matched_nodes of
           Inl e \<Rightarrow> Inl e
         | Inr h' \<Rightarrow> Inr (matched_nodes, h'))"

section \<open>Specification vocabulary\<close>

text \<open>
  The spec's words, to compare the code with. A node of a tree is named by its
  position: the path of child indices from the root, \<open>[]\<close> for the root itself.
  \<open>node_at\<close> follows a path; \<open>spec_positions\<close> lists the positions of a tree, a node
  before its children and the children from left to right, and \<open>spec_preorder\<close> lists
  the nodes in that order. On paths, the lexicographic order \<open><\<close> of
  \<open>List_Lexorder\<close> is the pre-order: a proper prefix comes first, and at the first
  difference the smaller child index comes first.
\<close>

fun node_at :: "Node \<Rightarrow> nat list \<Rightarrow> Node option" where
  "node_at node [] = Some node"
| "node_at node (i # p) =
     (if i < length (children node) then node_at (children node ! i) p else None)"

fun spec_positions :: "Node \<Rightarrow> nat list list"
  and spec_positions_from :: "nat \<Rightarrow> Node list \<Rightarrow> nat list list" where
  "spec_positions (Node t a cs) = [] # spec_positions_from 0 cs"
| "spec_positions_from i [] = []"
| "spec_positions_from i (c # cs) = map ((#) i) (spec_positions c) @ spec_positions_from (Suc i) cs"

fun spec_preorder :: "Node \<Rightarrow> Node list" where
  "spec_preorder (Node t a cs) = Node t a cs # concat (map spec_preorder cs)"

text \<open>
  The spec's class tokens: the value split on whitespace, as Python's \<open>s.split()\<close>
  without argument does it (runs of whitespace separate, no empty token). \<open>acc\<close> is
  the token being read.
\<close>

fun spec_split_whitespace_acc :: "pystr \<Rightarrow> pystr \<Rightarrow> pystr list" where
  "spec_split_whitespace_acc acc [] = (if acc = [] then [] else [acc])"
| "spec_split_whitespace_acc acc (c # cs) =
     (if isspace c then
        (if acc = [] then spec_split_whitespace_acc [] cs
         else acc # spec_split_whitespace_acc [] cs)
      else spec_split_whitespace_acc (acc @ [c]) cs)"

definition spec_class_tokens :: "Node \<Rightarrow> pystr set" where
  "spec_class_tokens node =
     set (filter (\<lambda>t. t \<noteq> [])
       (map strip
         (spec_split_whitespace_acc []
           (case attributes node (str_of ''class'') of None \<Rightarrow> [] | Some v \<Rightarrow> v))))"

text \<open>
  \<open>tree_at h a t\<close>: the store \<open>h\<close> holds the tree \<open>t\<close> at the address \<open>a\<close>.
  \<open>fuel_for t\<close> is fuel enough for the traversal of \<open>t\<close>. \<open>alloc t h\<close> lays the
  tree \<open>t\<close> out at the end of the store \<open>h\<close>, children first, and returns the address
  of its root.
\<close>

fun tree_at :: "store \<Rightarrow> addr \<Rightarrow> Node \<Rightarrow> bool" where
  "tree_at h a (Node tg attrs cs) =
     (case lookup h a of
        Some (Node_obj tg' attrs' ch) \<Rightarrow>
          tg' = tg \<and> attrs' = attrs \<and>
          (case lookup h ch of
             Some (List_obj as) \<Rightarrow> list_all2 (tree_at h) as cs
           | _ \<Rightarrow> False)
      | _ \<Rightarrow> False)"

fun fuel_for :: "Node \<Rightarrow> nat" and fuel_for_loop :: "Node list \<Rightarrow> nat" where
  "fuel_for (Node tg attrs cs) = Suc (fuel_for_loop cs)"
| "fuel_for_loop [] = 1"
| "fuel_for_loop (c # cs) = Suc (max (fuel_for c) (fuel_for_loop cs))"

fun alloc :: "Node \<Rightarrow> store \<Rightarrow> addr \<times> store"
  and alloc_list :: "Node list \<Rightarrow> store \<Rightarrow> addr list \<times> store" where
  "alloc (Node tg attrs cs) h =
     (case alloc_list cs h of
        (as, h1) \<Rightarrow> (Suc (length h1), h1 @ [List_obj as, Node_obj tg attrs (length h1)]))"
| "alloc_list [] h = ([], h)"
| "alloc_list (c # cs) h =
     (case alloc c h of (a, h1) \<Rightarrow>
        (case alloc_list cs h1 of (as, h2) \<Rightarrow> (a # as, h2)))"

section \<open>Example nodes\<close>

text \<open>
  Two nodes \<open><div class="...">\<close> without children: the class value of the first is
  \<open>a\<close>, a tab (U+0009) and \<open>b\<close>; that of the second is \<open>a\<close>, three spaces and \<open>b\<close>.
\<close>

definition node_a_tab_b :: Node where
  "node_a_tab_b = Node (str_of ''div'') [str_of ''class'' \<mapsto> [0x61, 0x09, 0x62]] []"

definition node_a_spaces_b :: Node where
  "node_a_spaces_b = Node (str_of ''div'') [str_of ''class'' \<mapsto> str_of ''a   b''] []"


text \<open>
  The tree \<open>div#topDiv.container > [p.note, span]\<close>, and the store \<open>alloc\<close> lays it
  out in: the root is at address 5, \<open>p\<close> at 1 and \<open>span\<close> at 3.
\<close>

definition example_tree :: Node where
  "example_tree =
     Node (str_of ''div'') [str_of ''id'' \<mapsto> str_of ''topDiv'', str_of ''class'' \<mapsto> str_of ''container'']
       [Node (str_of ''p'') [str_of ''class'' \<mapsto> str_of ''note''] [],
        Node (str_of ''span'') Map.empty []]"

definition example_store :: store where
  "example_store =
     [List_obj [],
      Node_obj (str_of ''p'') [str_of ''class'' \<mapsto> str_of ''note''] 0,
      List_obj [],
      Node_obj (str_of ''span'') Map.empty 2,
      List_obj [1, 3],
      Node_obj (str_of ''div'')
        [str_of ''id'' \<mapsto> str_of ''topDiv'', str_of ''class'' \<mapsto> str_of ''container''] 4]"

section \<open>Splitting and stripping\<close>

lemma split_acc_no_sep:
  "sep \<notin> set acc \<Longrightarrow> p \<in> set (split_acc sep acc s) \<Longrightarrow> sep \<notin> set p"
proof (induction s arbitrary: acc)
  case Nil
  then show ?case by simp
next
  case (Cons c s)
  show ?case
  proof (cases "c = sep")
    case True
    then show ?thesis using Cons.prems Cons.IH [of "[]"] by auto
  next
    case False
    then show ?thesis using Cons.prems Cons.IH [of "acc @ [c]"] by auto
  qed
qed


lemma split_acc_ne: "split_acc sep acc s \<noteq> []"
  by (induction s arbitrary: acc) auto

lemma length_split_acc: "length (split_acc sep acc s) = Suc (count_list s sep)"
  by (induction s arbitrary: acc) auto

lemma join_sep_Cons: "ps \<noteq> [] \<Longrightarrow> join_sep sep (p # ps) = p @ sep # join_sep sep ps"
  by (cases ps) auto

lemma join_split_acc: "join_sep sep (split_acc sep acc s) = acc @ s"
  by (induction s arbitrary: acc) (auto simp: join_sep_Cons split_acc_ne)

lemma strip_decomp:
  "\<exists>l r. s = l @ strip s @ r \<and> list_all isspace l \<and> list_all isspace r"
proof -
  let ?l = "takeWhile isspace s"
  let ?m = "dropWhile isspace s"
  let ?r = "rev (takeWhile isspace (rev ?m))"
  have "s = ?l @ ?m" by simp
  moreover have "?m = strip s @ ?r"
    unfolding strip_def by (metis rev_append rev_rev_ident takeWhile_dropWhile_id)
  moreover have "list_all isspace ?l"
    by (simp add: list_all_iff) (meson set_takeWhileD)
  moreover have "list_all isspace ?r"
    by (simp add: list_all_iff) (meson set_takeWhileD)
  ultimately show ?thesis by (metis append_assoc)
qed

lemma strip_ends:
  "strip s = [] \<or> (\<not> isspace (hd (strip s)) \<and> \<not> isspace (last (strip s)))"
proof (cases "strip s = []")
  case True
  then show ?thesis by simp
next
  case False
  let ?m = "dropWhile isspace s"
  let ?k = "dropWhile isspace (rev ?m)"
  have k: "?k \<noteq> []" using False by (simp add: strip_def)
  then have hk: "\<not> isspace (hd ?k)" by (rule hd_dropWhile)
  have "last (strip s) = hd ?k" using k by (simp add: strip_def last_rev)
  then have 1: "\<not> isspace (last (strip s))" using hk by simp
  have m: "?m \<noteq> []"
  proof
    assume "?m = []"
    with k show False by simp
  qed
  then have hm: "\<not> isspace (hd ?m)" by (rule hd_dropWhile)
  obtain r where "?m = strip s @ r"
    unfolding strip_def by (metis rev_append rev_rev_ident takeWhile_dropWhile_id)
  then have "hd ?m = hd (strip s)" using False by (metis hd_append2)
  then have 2: "\<not> isspace (hd (strip s))" using hm by simp
  show ?thesis using 1 2 by simp
qed

lemma strip_all_space: "list_all isspace s \<Longrightarrow> strip s = []"
proof -
  assume "list_all isspace s"
  then have d: "dropWhile isspace s = []"
    by (simp add: list_all_iff)
  show ?thesis
    unfolding strip_def d by simp
qed

lemma strip_no_space: "\<forall>c \<in> set s. \<not> isspace c \<Longrightarrow> strip s = s"
proof (cases "s = []")
  case True
  then show ?thesis by (simp add: strip_def)
next
  case False
  assume a: "\<forall>c \<in> set s. \<not> isspace c"
  have "\<not> isspace (hd s)" using a False by simp
  then have 1: "dropWhile isspace s = s"
    by (simp add: dropWhile_eq_self_iff)
  have "\<not> isspace (hd (rev s))" using a False by (simp add: hd_rev)
  then have 2: "dropWhile isspace (rev s) = rev s"
    by (simp add: dropWhile_eq_self_iff)
  show ?thesis by (simp add: strip_def 1 2)
qed


lemma spec_split_agree:
  "\<forall>c \<in> set v. isspace c \<longrightarrow> c = of_char CHR '' '' \<Longrightarrow> \<forall>c \<in> set acc. \<not> isspace c \<Longrightarrow>
   filter (\<lambda>t. t \<noteq> []) (map strip (split_acc (of_char CHR '' '') acc v))
     = filter (\<lambda>t. t \<noteq> []) (map strip (spec_split_whitespace_acc acc v))"
proof (induction v arbitrary: acc)
  case Nil
  then show ?case by (simp add: strip_no_space)
next
  case (Cons c v)
  have sp: "isspace (of_char CHR '' '')" by (simp add: isspace_def)
  show ?case
  proof (cases "c = of_char CHR '' ''")
    case True
    then show ?thesis using Cons.IH [of "[]"] Cons.prems sp by (simp add: strip_no_space)
  next
    case False
    then have "\<not> isspace c" using Cons.prems(1) by auto
    then show ?thesis using Cons.IH [of "acc @ [c]"] Cons.prems False by simp
  qed
qed

section \<open>The parser\<close>

lemma update_by_mode_Nil: "update_by_mode sel mode [] = (sel, [])"
  by (simp add: update_by_mode_def)

lemma klass_update_by_mode:
  "klass (fst (update_by_mode sel mode chars)) =
     (if mode = CLASS \<and> chars \<noteq> [] then insert chars (klass sel) else klass sel)"
  by (cases mode) (simp_all add: update_by_mode_def)

lemma klass_update_ok:
  "finite (klass sel) \<and> [] \<notin> klass sel \<Longrightarrow> update_by_mode sel mode chars = (u, b) \<Longrightarrow>
   finite (klass u) \<and> [] \<notin> klass u"
  using klass_update_by_mode [of sel mode chars] by (auto split: if_splits)

lemma klass_from_str_loop:
  "finite (klass sel) \<and> [] \<notin> klass sel \<Longrightarrow>
   finite (klass (fst (from_str_loop s sel mode chars))) \<and>
   [] \<notin> klass (fst (from_str_loop s sel mode chars))"
proof (induction s arbitrary: sel mode chars)
  case Nil
  then show ?case by simp
next
  case (Cons ch rest)
  obtain u b where u: "update_by_mode sel mode chars = (u, b)"
    by (cases "update_by_mode sel mode chars")
  have ku: "finite (klass u) \<and> [] \<notin> klass u"
    by (rule klass_update_ok [OF Cons.prems u])
  show ?case
    using Cons.IH [OF ku] Cons.IH [OF Cons.prems] by (simp add: u)
qed

lemma klass_from_str: "finite (klass (Selector_from_str S)) \<and> [] \<notin> klass (Selector_from_str S)"
proof -
  obtain sel mode chars where l: "from_str_loop S Selector_init TAG [] = (sel, mode, chars)"
    by (cases "from_str_loop S Selector_init TAG []")
  have "finite (klass (fst (from_str_loop S Selector_init TAG []))) \<and>
        [] \<notin> klass (fst (from_str_loop S Selector_init TAG []))"
    by (rule klass_from_str_loop) (simp add: Selector_init_def)
  then have "finite (klass sel) \<and> [] \<notin> klass sel"
    by (simp add: l)
  then show ?thesis
    by (auto simp: Selector_from_str_def l klass_update_by_mode)
qed

lemma from_str_Nil: "Selector_from_str [] = Selector_init"
  by (simp add: Selector_from_str_def update_by_mode_def)

lemma from_str_loop_run:
  "\<forall>ch \<in> set r. ch \<noteq> of_char CHR ''.'' \<and> ch \<noteq> of_char CHR ''#'' \<Longrightarrow>
   from_str_loop (r @ rest) sel mode chars = from_str_loop rest sel mode (chars @ r)"
  by (induction r arbitrary: chars) auto

lemma from_str_order:
  assumes "\<forall>ch \<in> set t \<union> set c \<union> set i. ch \<noteq> of_char CHR ''.'' \<and> ch \<noteq> of_char CHR ''#''"
  shows "Selector_from_str (t @ of_char CHR ''.'' # c @ of_char CHR ''#'' # i)
       = Selector_from_str (t @ of_char CHR ''#'' # i @ of_char CHR ''.'' # c)"
proof -
  have t: "\<forall>ch \<in> set t. ch \<noteq> of_char CHR ''.'' \<and> ch \<noteq> of_char CHR ''#''"
    and c: "\<forall>ch \<in> set c. ch \<noteq> of_char CHR ''.'' \<and> ch \<noteq> of_char CHR ''#''"
    and i: "\<forall>ch \<in> set i. ch \<noteq> of_char CHR ''.'' \<and> ch \<noteq> of_char CHR ''#''"
    using assms by auto
  have i': "from_str_loop i sel mode chars = (sel, mode, chars @ i)" for sel mode chars
    using from_str_loop_run [OF i, of "[]" sel mode chars] by simp
  have c': "from_str_loop c sel mode chars = (sel, mode, chars @ c)" for sel mode chars
    using from_str_loop_run [OF c, of "[]" sel mode chars] by simp
  show ?thesis
    by (cases "t = []"; cases "c = []"; cases "i = []")
       (simp_all add: Selector_from_str_def from_str_loop_run [OF t] from_str_loop_run [OF c]
          from_str_loop_run [OF i] i' c' update_by_mode_def Selector_init_def)
qed

section \<open>Matching and traversal\<close>

lemma match_list_ex:
  "Selectors_match_node sels node \<longleftrightarrow> (\<exists>sel \<in> set (items sels). Selector_match_node sel node)"
  by (simp add: Selectors_match_node_def list_ex_iff)

lemma match_universal: "Selector_match_node Selector_init node"
  by (simp add: Selector_match_node_def Selector_init_def)

lemma match_node_reads:
  assumes "Node.tag n = Node.tag n'"
    and "attributes n (str_of ''id'') = attributes n' (str_of ''id'')"
    and "attributes n (str_of ''class'') = attributes n' (str_of ''class'')"
  shows "Selector_match_node sel n = Selector_match_node sel n'"
    and "Selectors_match_node sels n = Selectors_match_node sels n'"
  using assms by (simp_all add: Selectors_match_node_def Selector_match_node_def class_set_def)


lemma foldl_verify:
  assumes "\<And>c m. c \<in> set cs \<Longrightarrow> verify_node c sel m = m @ filter P (spec_preorder c)"
  shows "foldl (\<lambda>m c. verify_node c sel m) m0 cs = m0 @ filter P (concat (map spec_preorder cs))"
  using assms
proof (induction cs arbitrary: m0)
  case Nil
  then show ?case by simp
next
  case (Cons c cs)
  have "foldl (\<lambda>m c. verify_node c sel m) (verify_node c sel m0) cs
      = verify_node c sel m0 @ filter P (concat (map spec_preorder cs))"
    by (rule Cons.IH) (simp add: Cons.prems)
  moreover have "verify_node c sel m0 = m0 @ filter P (spec_preorder c)"
    by (rule Cons.prems) simp
  ultimately show ?case by simp
qed

lemma positions_from_heads:
  "q \<in> set (spec_positions_from i cs) \<Longrightarrow> \<exists>j p. q = j # p \<and> i \<le> j"
proof (induction cs arbitrary: i)
  case Nil
  then show ?case by simp
next
  case (Cons c cs)
  from Cons.prems consider "q \<in> (#) i ` set (spec_positions c)" | "q \<in> set (spec_positions_from (Suc i) cs)"
    by auto
  then show ?case
  proof cases
    case 1
    then show ?thesis by auto
  next
    case 2
    from Cons.IH [OF this] show ?thesis by (metis Suc_leD)
  qed
qed

lemma verify_node_eq:
  "verify_node node sel m = m @ filter (Selectors_match_node sel) (spec_preorder node)"
proof (induction node sel m rule: verify_node.induct)
  case (1 node selector matched)
  obtain t a cs where n: "node = Node t a cs" by (cases node)
  have "foldl (\<lambda>m c. verify_node c selector m)
          (if Selectors_match_node selector node then matched @ [node] else matched) (children node)
      = (if Selectors_match_node selector node then matched @ [node] else matched)
          @ filter (Selectors_match_node selector) (concat (map spec_preorder (children node)))"
    by (rule foldl_verify) (rule "1.IH")
  then show ?case
    by (subst verify_node.simps) (simp add: n)
qed

lemma sorted_map_Cons:
  "sorted_wrt (<) (map ((#) (i::nat)) ps) = sorted_wrt (<) ps"
  by (simp add: sorted_wrt_map)

lemma sorted_positions:
  "sorted_wrt (<) (spec_positions node)"
  "sorted_wrt (<) (spec_positions_from i cs)"
proof (induction node and i cs rule: spec_positions_spec_positions_from.induct)
  case (1 t a cs)
  then show ?case by (auto dest!: positions_from_heads)
next
  case (2 i)
  then show ?case by simp
next
  case (3 i c cs)
  then show ?case
    by (auto simp: sorted_wrt_append sorted_map_Cons dest!: positions_from_heads)
qed

lemma positions_from_iff:
  "(j # p \<in> set (spec_positions_from i cs)) \<longleftrightarrow>
     (i \<le> j \<and> j - i < length cs \<and> p \<in> set (spec_positions (cs ! (j - i))))"
proof (induction cs arbitrary: i)
  case Nil
  then show ?case by simp
next
  case (Cons c cs)
  show ?case
  proof (cases "j = i")
    case True
    then show ?thesis using Cons.IH [of "Suc i"] by auto
  next
    case False
    then show ?thesis using Cons.IH [of "Suc i"]
      by (auto simp: nth_Cons' Suc_diff_le split: if_splits) 
  qed
qed

lemma positions_iff: "p \<in> set (spec_positions node) \<longleftrightarrow> node_at node p \<noteq> None"
proof (induction p arbitrary: node)
  case Nil
  then show ?case by (cases node) simp
next
  case (Cons j p)
  show ?case
    using Cons.IH [of "children node ! j"]
    by (cases node) (simp add: positions_from_iff)
qed

lemma map_node_at_from:
  assumes "\<And>c. c \<in> set cs \<Longrightarrow> map (node_at c) (spec_positions c) = map Some (spec_preorder c)"
  shows "map (node_at (Node t a (pre @ cs))) (spec_positions_from (length pre) cs)
       = map Some (concat (map spec_preorder cs))"
  using assms
proof (induction cs arbitrary: pre)
  case Nil
  then show ?case by simp
next
  case (Cons c cs)
  have "map (node_at (Node t a ((pre @ [c]) @ cs))) (spec_positions_from (length (pre @ [c])) cs)
       = map Some (concat (map spec_preorder cs))"
    by (rule Cons.IH) (simp add: Cons.prems)
  then show ?case
    by (simp add: Cons.prems nth_append comp_def)
qed

lemma map_node_at: "map (node_at node) (spec_positions node) = map Some (spec_preorder node)"
proof (induction node)
  case (Node t a cs)
  have "map (node_at (Node t a ([] @ cs))) (spec_positions_from (length ([]::Node list)) cs)
       = map Some (concat (map spec_preorder cs))"
    by (rule map_node_at_from) (rule Node.IH)
  then show ?case by simp
qed

lemma query_empty: "query_selector_all root [] = spec_preorder root"
proof -
  have "Selectors_match_node (Selectors_from_str []) = (\<lambda>n. True)"
    by (simp add: fun_eq_iff Selectors_match_node_def Selectors_from_str_def split_sep_def
        strip_def from_str_Nil match_universal)
  then show ?thesis
    by (simp add: query_selector_all_def verify_node_eq)
qed


section \<open>Class tokens\<close>

lemma class_set_agree:
  assumes "\<forall>c \<in> set v. isspace c \<longrightarrow> c = of_char CHR '' ''"
    and "attributes node (str_of ''class'') = Some v"
  shows "class_set node = spec_class_tokens node"
proof -
  have "filter (\<lambda>t. t \<noteq> []) (map strip (split_acc (of_char CHR '' '') [] v))
      = filter (\<lambda>t. t \<noteq> []) (map strip (spec_split_whitespace_acc [] v))"
    by (rule spec_split_agree [OF assms(1)]) simp
  then show ?thesis
    by (simp only: class_set_def spec_class_tokens_def split_sep_def assms(2) Let_def option.case)
qed

lemma class_set_None:
  "attributes node (str_of ''class'') = None \<Longrightarrow> class_set node = {}"
  by (simp add: class_set_def split_sep_def strip_def)

lemma from_str_a_b:
  "Selector_from_str (str_of ''.a.b'') = \<lparr>id' = [], klass = {str_of ''a'', str_of ''b''}, tag = []\<rparr>"
  by (simp add: Selector_from_str_def str_of_def update_by_mode_def Selector_init_def insert_commute)

lemma class_set_a_spaces_b:
  "attributes node (str_of ''class'') = Some (str_of ''a   b'') \<Longrightarrow>
   class_set node = {str_of ''a'', str_of ''b''}"
  by (auto simp: class_set_def str_of_def split_sep_def strip_def isspace_def)

section \<open>The store\<close>

lemma list_append_frame:
  "list_append h l x = Inr h' \<Longrightarrow> length h' = length h \<and> (\<forall>a. a \<noteq> l \<longrightarrow> h' ! a = h ! a)"
  by (auto simp: list_append_def split: option.splits obj.splits)

lemma verify_node_st_frame:
  "verify_node_st fuel h node selector matched = Inr h' \<Longrightarrow>
     length h' = length h \<and> (\<forall>a. a \<noteq> matched \<longrightarrow> h' ! a = h ! a)"
  "children_loop_st fuel h ch i selector matched = Inr h' \<Longrightarrow>
     length h' = length h \<and> (\<forall>a. a \<noteq> matched \<longrightarrow> h' ! a = h ! a)"
proof (induction fuel h node selector matched and fuel h ch i selector matched
       arbitrary: h' and h' rule: verify_node_st_children_loop_st.induct)
  case (1 h node selector matched)
  then show ?case by simp
next
  case (2 fuel h node selector matched)
  then show ?case
    by (auto split: option.splits obj.splits sum.splits if_splits dest!: list_append_frame)
next
  case (3 h ch i selector matched)
  then show ?case by simp
next
  case (4 fuel h ch i selector matched)
  then show ?case
    by (auto split: option.splits obj.splits sum.splits if_splits) 
qed

lemma lookup_take:
  "lookup (take k h) a = Some v \<Longrightarrow> lookup h a = Some v \<and> a < k"
  by (auto simp: lookup_def split: if_splits)

lemma lookup_update_other: "a \<noteq> m \<Longrightarrow> lookup (h[m := v]) a = lookup h a"
  by (simp add: lookup_def)

lemma lookup_update_same: "lookup h m = Some w \<Longrightarrow> lookup (h[m := v]) m = Some v"
  by (auto simp: lookup_def split: if_splits)

lemma tree_atE:
  assumes "tree_at g a (Node tg attrs cs)"
  obtains ch as where "lookup g a = Some (Node_obj tg attrs ch)"
    and "lookup g ch = Some (List_obj as)" and "list_all2 (tree_at g) as cs"
proof (cases "lookup g a")
  case None
  with assms show ?thesis by simp
next
  case (Some v)
  show ?thesis
  proof (cases v)
    case (List_obj xs)
    with assms Some show ?thesis by simp
  next
    case (Node_obj tg' attrs' ch)
    note n = this
    show ?thesis
    proof (cases "lookup g ch")
      case None
      with assms Some n show ?thesis by simp
    next
      case (Some w)
      note sw = this
      show ?thesis
      proof (cases w)
        case (Node_obj x y z)
        with assms \<open>lookup g a = Some v\<close> n sw show ?thesis by simp
      next
        case (List_obj as)
        with assms \<open>lookup g a = Some v\<close> n sw that [of ch as] show ?thesis by simp
      qed
    qed
  qed
qed

lemma update_id: "lookup h m = Some v \<Longrightarrow> h[m := v] = h"
  by (metis list_update_id lookup_def option.distinct(1) option.inject)

lemma children_loop_st_tree:
  assumes IH: "\<And>c a h ms fuel. c \<in> set cs \<Longrightarrow> tree_at (take k h) a c \<Longrightarrow>
        lookup h m = Some (List_obj ms) \<Longrightarrow> fuel_for c \<le> fuel \<Longrightarrow>
        \<exists>addrs. verify_node_st fuel h a sel m = Inr (h[m := List_obj (ms @ addrs)]) \<and>
          list_all2 (tree_at (take k h)) addrs (filter (Selectors_match_node sel) (spec_preorder c))"
    and km: "k \<le> m"
  shows "lookup (take k h) ch = Some (List_obj as) \<Longrightarrow>
     list_all2 (tree_at (take k h)) (drop i as) cs \<Longrightarrow>
     lookup h m = Some (List_obj ms) \<Longrightarrow> fuel_for_loop cs \<le> fuel \<Longrightarrow>
     \<exists>addrs. children_loop_st fuel h ch i sel m = Inr (h[m := List_obj (ms @ addrs)]) \<and>
       list_all2 (tree_at (take k h)) addrs
         (filter (Selectors_match_node sel) (concat (map spec_preorder cs)))"
  using IH
proof (induction cs arbitrary: i h ms fuel)
  case Nil
  from Nil.prems(1) have ch: "lookup h ch = Some (List_obj as)"
    by (auto dest: lookup_take)
  from Nil.prems(2) have i: "\<not> i < length as" by simp
  from Nil.prems(4) obtain f where f: "fuel = Suc f" by (cases fuel) auto
  from Nil.prems(3) have "h[m := List_obj ms] = h"
    by (rule update_id)
  then show ?case
    using ch i by (simp add: f)
next
  case (Cons c cs)
  let ?g = "take k h"
  from Cons.prems(1) have ch: "lookup h ch = Some (List_obj as)" and chk: "ch < k"
    by (auto dest: lookup_take)
  from Cons.prems(2) obtain x rest where d: "drop i as = x # rest"
    and x: "tree_at ?g x c" and rest: "list_all2 (tree_at ?g) rest cs"
    by (auto simp: list_all2_Cons2)
  from d have i: "i < length as" by (cases "i < length as") auto
  from d i have xi: "as ! i = x" by (metis nth_via_drop)
  from d have d': "drop (Suc i) as = rest" by (metis drop_Suc tl_drop list.sel(3))
  from Cons.prems(4) obtain f where f: "fuel = Suc f" and fc: "fuel_for c \<le> f"
    and fl: "fuel_for_loop cs \<le> f"
    by (cases fuel) auto
  from Cons.prems(5) [OF _ x Cons.prems(3) fc]
  obtain ad1 where v: "verify_node_st f h x sel m = Inr (h[m := List_obj (ms @ ad1)])"
    and a1: "list_all2 (tree_at ?g) ad1 (filter (Selectors_match_node sel) (spec_preorder c))"
    by auto
  let ?h' = "h[m := List_obj (ms @ ad1)]"
  have tk: "take k ?h' = ?g" using km by simp
  have m': "lookup ?h' m = Some (List_obj (ms @ ad1))"
    by (rule lookup_update_same [OF Cons.prems(3)])
  have "\<exists>addrs. children_loop_st f ?h' ch (Suc i) sel m = Inr (?h'[m := List_obj ((ms @ ad1) @ addrs)]) \<and>
       list_all2 (tree_at (take k ?h')) addrs
         (filter (Selectors_match_node sel) (concat (map spec_preorder cs)))"
  proof (rule Cons.IH)
    show "lookup (take k ?h') ch = Some (List_obj as)" using Cons.prems(1) tk by simp
    show "list_all2 (tree_at (take k ?h')) (drop (Suc i) as) cs" using rest d' tk by simp
    show "lookup ?h' m = Some (List_obj (ms @ ad1))" by (rule m')
    show "fuel_for_loop cs \<le> f" by (rule fl)
    fix c' a h0 ms0 fuel0
    assume "c' \<in> set cs" "tree_at (take k h0) a c'" "lookup h0 m = Some (List_obj ms0)"
      "fuel_for c' \<le> fuel0"
    then show "\<exists>addrs. verify_node_st fuel0 h0 a sel m = Inr (h0[m := List_obj (ms0 @ addrs)]) \<and>
          list_all2 (tree_at (take k h0)) addrs (filter (Selectors_match_node sel) (spec_preorder c'))"
      using Cons.prems(5) [of c' h0 a ms0 fuel0] by simp
  qed
  then obtain ad2 where l: "children_loop_st f ?h' ch (Suc i) sel m = Inr (h[m := List_obj (ms @ ad1 @ ad2)])"
    and a2: "list_all2 (tree_at ?g) ad2 (filter (Selectors_match_node sel) (concat (map spec_preorder cs)))"
    using tk by auto
  have "children_loop_st fuel h ch i sel m = Inr (h[m := List_obj (ms @ ad1 @ ad2)])"
    using ch i xi v l by (simp add: f)
  moreover have "list_all2 (tree_at ?g) (ad1 @ ad2)
      (filter (Selectors_match_node sel) (concat (map spec_preorder (c # cs))))"
    using a1 a2 by (simp add: list_all2_appendI)
  ultimately show ?case by blast
qed

lemma verify_node_st_tree:
  "k \<le> m \<Longrightarrow> tree_at (take k h) a t \<Longrightarrow> lookup h m = Some (List_obj ms) \<Longrightarrow> fuel_for t \<le> fuel \<Longrightarrow>
   \<exists>addrs. verify_node_st fuel h a sel m = Inr (h[m := List_obj (ms @ addrs)]) \<and>
     list_all2 (tree_at (take k h)) addrs (filter (Selectors_match_node sel) (spec_preorder t))"
proof (induction t arbitrary: a h ms fuel)
  case (Node tg attrs cs)
  let ?g = "take k h"
  let ?M = "Selectors_match_node sel"
  from Node.prems(2) obtain ch as where na: "lookup ?g a = Some (Node_obj tg attrs ch)"
    and lc: "lookup ?g ch = Some (List_obj as)" and cs: "list_all2 (tree_at ?g) as cs"
    by (rule tree_atE)
  from na have a: "lookup h a = Some (Node_obj tg attrs ch)" and ak: "a < k"
    by (auto dest: lookup_take)
  from ak Node.prems(1) have am: "a \<noteq> m" by simp
  from Node.prems(4) obtain f where f: "fuel = Suc f" and fl: "fuel_for_loop cs \<le> f"
    by (cases fuel) auto
  define ms1 where "ms1 = (if ?M (Node tg attrs []) then ms @ [a] else ms)"
  let ?h1 = "h[m := List_obj ms1]"
  have step: "(if ?M (Node tg attrs []) then list_append h m a else Inr h) = Inr ?h1"
  proof (cases "?M (Node tg attrs [])")
    case True
    then show ?thesis using Node.prems(3) by (simp add: ms1_def list_append_def)
  next
    case False
    have "h[m := List_obj ms] = h"
      using Node.prems(3) by (rule update_id)
    then show ?thesis using False by (simp add: ms1_def)
  qed
  have a1: "lookup ?h1 a = Some (Node_obj tg attrs ch)"
    using a am by (simp add: lookup_update_other)
  have tk: "take k ?h1 = ?g" using Node.prems(1) by simp
  have m1: "lookup ?h1 m = Some (List_obj ms1)"
    by (rule lookup_update_same [OF Node.prems(3)])
  have "\<exists>addrs. children_loop_st f ?h1 ch 0 sel m = Inr (?h1[m := List_obj (ms1 @ addrs)]) \<and>
       list_all2 (tree_at (take k ?h1)) addrs (filter ?M (concat (map spec_preorder cs)))"
  proof (rule children_loop_st_tree [where as = as])
    show "k \<le> m" by (rule Node.prems(1))
    show "lookup (take k ?h1) ch = Some (List_obj as)" using lc tk by simp
    show "list_all2 (tree_at (take k ?h1)) (drop 0 as) cs" using cs tk by simp
    show "lookup ?h1 m = Some (List_obj ms1)" by (rule m1)
    show "fuel_for_loop cs \<le> f" by (rule fl)
    fix c a' h0 ms0 fuel0
    assume "c \<in> set cs" "tree_at (take k h0) a' c" "lookup h0 m = Some (List_obj ms0)"
      "fuel_for c \<le> fuel0"
    then show "\<exists>addrs. verify_node_st fuel0 h0 a' sel m = Inr (h0[m := List_obj (ms0 @ addrs)]) \<and>
          list_all2 (tree_at (take k h0)) addrs (filter ?M (spec_preorder c))"
      using Node.IH [of c h0 a' ms0 fuel0] Node.prems(1) by simp
  qed
  then obtain ad where l: "children_loop_st f ?h1 ch 0 sel m = Inr (h[m := List_obj (ms1 @ ad)])"
    and al: "list_all2 (tree_at ?g) ad (filter ?M (concat (map spec_preorder cs)))"
    using tk by auto
  have run: "verify_node_st fuel h a sel m = Inr (h[m := List_obj (ms1 @ ad)])"
    using a step a1 l by (simp add: f)
  have mm: "?M (Node tg attrs cs) = ?M (Node tg attrs [])"
    by (simp add: Selectors_match_node_def Selector_match_node_def class_set_def)
  show ?case
  proof (cases "?M (Node tg attrs [])")
    case True
    then have "verify_node_st fuel h a sel m = Inr (h[m := List_obj (ms @ (a # ad))])"
      using run by (simp add: ms1_def)
    moreover have "list_all2 (tree_at ?g) (a # ad) (filter ?M (spec_preorder (Node tg attrs cs)))"
      using True mm al Node.prems(2) by simp
    ultimately show ?thesis by blast
  next
    case False
    then have "verify_node_st fuel h a sel m = Inr (h[m := List_obj (ms @ ad)])"
      using run by (simp add: ms1_def)
    moreover have "list_all2 (tree_at ?g) ad (filter ?M (spec_preorder (Node tg attrs cs)))"
      using False mm al by simp
    ultimately show ?thesis by blast
  qed
qed

lemma query_selector_all_st_frame_gen:
  assumes "query_selector_all_st fuel h root s = Inr (res, h')"
  shows "res = length h \<and> length h' = Suc (length h) \<and> take (length h) h' = h"
proof -
  from assms have v: "verify_node_st fuel (h @ [List_obj []]) root (Selectors_from_str s) (length h) = Inr h'"
    and r: "res = length h"
    by (auto simp: query_selector_all_st_def Let_def split: sum.splits)
  from verify_node_st_frame(1) [OF v]
  have l: "length h' = Suc (length h)" and e: "\<forall>a. a \<noteq> length h \<longrightarrow> h' ! a = (h @ [List_obj []]) ! a"
    by auto
  have "take (length h) h' = h"
  proof (rule nth_equalityI)
    show "length (take (length h) h') = length h" using l by simp
  next
    fix i assume "i < length (take (length h) h')"
    then have i: "i < length h" by simp
    then show "take (length h) h' ! i = h ! i" using e by (simp add: nth_append)
  qed
  with r l show ?thesis by simp
qed

lemma query_selector_all_st_tree:
  assumes t: "tree_at h root t" and f: "fuel_for t \<le> fuel"
  shows "\<exists>addrs. query_selector_all_st fuel h root s = Inr (length h, h @ [List_obj addrs]) \<and>
           list_all2 (tree_at h) addrs (query_selector_all t s)"
proof -
  let ?h0 = "h @ [List_obj []]"
  have tk: "take (length h) ?h0 = h" by simp
  have m: "lookup ?h0 (length h) = Some (List_obj [])" by (simp add: lookup_def)
  from t tk have t0: "tree_at (take (length h) ?h0) root t" by simp
  from verify_node_st_tree [OF le_refl t0 m f, of "Selectors_from_str s"]
  obtain addrs where v: "verify_node_st fuel ?h0 root (Selectors_from_str s) (length h)
        = Inr (?h0[length h := List_obj ([] @ addrs)])"
    and a: "list_all2 (tree_at (take (length h) ?h0)) addrs
        (filter (Selectors_match_node (Selectors_from_str s)) (spec_preorder t))"
    by blast
  have "query_selector_all_st fuel h root s = Inr (length h, h @ [List_obj addrs])"
    by (simp add: query_selector_all_st_def Let_def v)
  moreover have "list_all2 (tree_at h) addrs (query_selector_all t s)"
    using a by (simp add: query_selector_all_def verify_node_eq)
  ultimately show ?thesis by blast
qed

lemma lookup_append: "lookup h a = Some v \<Longrightarrow> lookup (h @ e) a = Some v"
  by (auto simp: lookup_def nth_append split: if_splits)

lemma tree_at_append_store: "tree_at h a t \<Longrightarrow> tree_at (h @ e) a t"
proof (induction t arbitrary: a)
  case (Node tg attrs cs)
  from Node.prems obtain ch as where 1: "lookup h a = Some (Node_obj tg attrs ch)"
    and 2: "lookup h ch = Some (List_obj as)" and 3: "list_all2 (tree_at h) as cs"
    by (rule tree_atE)
  from 3 have "list_all2 (tree_at (h @ e)) as cs"
    by (rule list.rel_mono_strong) (rule Node.IH)
  then show ?case
    using lookup_append [OF 1, of e] lookup_append [OF 2, of e] by simp
qed

lemma alloc_extends:
  "alloc t h = (a, h') \<Longrightarrow> \<exists>e. h' = h @ e"
  "alloc_list cs h = (as, h') \<Longrightarrow> \<exists>e. h' = h @ e"
proof (induction t h and cs h arbitrary: a h' and as h' rule: alloc_alloc_list.induct)
  case (1 tg attrs cs h)
  then show ?case by (auto split: prod.splits)
next
  case (2 h)
  then show ?case by simp
next
  case (3 c cs h)
  then show ?case by (auto split: prod.splits)
qed

lemma alloc_tree_at:
  "alloc t h = (a, h') \<Longrightarrow> tree_at h' a t"
  "alloc_list cs h = (as, h') \<Longrightarrow> list_all2 (tree_at h') as cs"
proof (induction t h and cs h arbitrary: a h' and as h' rule: alloc_alloc_list.induct)
  case (1 tg attrs cs h)
  obtain as h1 where l: "alloc_list cs h = (as, h1)" by (cases "alloc_list cs h")
  from "1.IH" [OF l] have "list_all2 (tree_at h1) as cs" .
  then have "list_all2 (tree_at (h1 @ [List_obj as, Node_obj tg attrs (length h1)])) as cs"
    by (rule list.rel_mono_strong) (rule tree_at_append_store)
  then show ?case
    using "1.prems" l by (auto simp: lookup_def nth_append)
next
  case (2 h)
  then show ?case by simp
next
  case (3 c cs h)
  obtain a1 h1 where c: "alloc c h = (a1, h1)" by (cases "alloc c h")
  obtain as2 h2 where l: "alloc_list cs h1 = (as2, h2)" by (cases "alloc_list cs h1")
  from "3.IH"(1) [OF c] have t1: "tree_at h1 a1 c" .
  from "3.IH"(2) [OF c [symmetric] l] have t2: "list_all2 (tree_at h2) as2 cs" .
  from alloc_extends(2) [OF l] obtain e where "h2 = h1 @ e" by blast
  with t1 have "tree_at h2 a1 c" by (simp add: tree_at_append_store)
  with t2 show ?case using "3.prems" c l by auto
qed

lemma example_tree_at: "tree_at example_store 5 example_tree"
  by (simp add: example_store_def example_tree_def lookup_def)

lemma example_fuel: "fuel_for example_tree = 5"
  by (simp add: example_tree_def)

lemma example_selectors:
  "Selectors_from_str (str_of ''span, p'')
     = \<lparr>items = [\<lparr>id' = [], klass = {}, tag = str_of ''span''\<rparr>, \<lparr>id' = [], klass = {}, tag = str_of ''p''\<rparr>]\<rparr>"
  by (simp add: Selectors_from_str_def split_sep_def str_of_def strip_def isspace_def
      Selector_from_str_def update_by_mode_def Selector_init_def)

lemma example_run:
  "query_selector_all_st (Suc (Suc (Suc (Suc (Suc 0))))) example_store 5 (str_of ''span, p'')
     = Inr (6, example_store @ [List_obj [1, 3]])"
  unfolding query_selector_all_st_def example_selectors
  by (simp add: example_store_def lookup_def list_append_def Selectors_match_node_def
      Selector_match_node_def str_of_def)

lemma example_pure:
  "query_selector_all example_tree (str_of ''span, p'')
     = [Node (str_of ''p'') [str_of ''class'' \<mapsto> str_of ''note''] [],
        Node (str_of ''span'') Map.empty []]"
  unfolding query_selector_all_def verify_node_eq example_selectors
  by (simp add: example_tree_def Selectors_match_node_def Selector_match_node_def str_of_def)

section \<open>The claims\<close>

text \<open>
  C1. For every tree and every selector string, \<open>query_selector_all\<close> returns exactly
  the nodes of the tree that match the parsed selector list, in pre-order (a node
  before its children, the children from left to right), the root included, the whole
  tree visited, and no node twice.

  The result is the pre-order list of the tree filtered by the match test. In terms
  of positions: the result lists the nodes at the positions \<open>ps\<close>, where \<open>ps\<close> is
  strictly increasing in the pre-order of positions (so no position occurs twice) and
  holds exactly the positions of the tree, the root's \<open>[]\<close> among them, whose node
  matches.
\<close>

theorem query_selector_all_preorder:
  "query_selector_all root s
     = filter (Selectors_match_node (Selectors_from_str s)) (spec_preorder root) \<and>
   (\<exists>ps. map Some (query_selector_all root s) = map (node_at root) ps \<and>
         sorted_wrt (<) ps \<and>
         set ps = {p. \<exists>n. node_at root p = Some n \<and>
                        Selectors_match_node (Selectors_from_str s) n})"
proof -
  let ?M = "Selectors_match_node (Selectors_from_str s)"
  let ?Q = "\<lambda>p. \<exists>n. node_at root p = Some n \<and> ?M n"
  let ?ps = "filter ?Q (spec_positions root)"
  have q: "query_selector_all root s = filter ?M (spec_preorder root)"
    by (simp add: query_selector_all_def verify_node_eq)
  have "map Some (filter ?M (spec_preorder root))
      = filter (\<lambda>x. \<exists>n. x = Some n \<and> ?M n) (map Some (spec_preorder root))"
    by (simp add: filter_map comp_def)
  also have "\<dots> = filter (\<lambda>x. \<exists>n. x = Some n \<and> ?M n) (map (node_at root) (spec_positions root))"
    by (simp only: map_node_at)
  also have "\<dots> = map (node_at root) ?ps"
    by (simp add: filter_map comp_def)
  finally have 1: "map Some (query_selector_all root s) = map (node_at root) ?ps"
    by (simp only: q)
  have 2: "sorted_wrt (<) ?ps"
    by (rule sorted_wrt_filter) (rule sorted_positions)
  have 3: "set ?ps = {p. ?Q p}"
    by (auto simp: positions_iff)
  from 1 2 3 have "\<exists>ps. map Some (query_selector_all root s) = map (node_at root) ps \<and>
         sorted_wrt (<) ps \<and> set ps = {p. ?Q p}"
    by blast
  with q show ?thesis by simp
qed

text \<open>
  C2. A selector matches a node if and only if the tag check (selector tag empty, or
  equal to the node's tag), the id check (selector id empty, or equal to the node's
  \<open>id\<close> attribute, a missing attribute counting as the empty string) and the class
  check (selector class set empty, or a subset of the node's class-token set) all
  pass. Strings are compared code point by code point, so the comparison is
  case-sensitive.
\<close>

theorem Selector_match_node_iff:
  "Selector_match_node sel node \<longleftrightarrow>
     (Selector.tag sel = [] \<or> Selector.tag sel = Node.tag node) \<and>
     (id' sel = [] \<or>
      id' sel = (case attributes node (str_of ''id'') of None \<Rightarrow> [] | Some v \<Rightarrow> v)) \<and>
     (klass sel = {} \<or> klass sel \<subseteq> class_set node)"
  by (auto simp: Selector_match_node_def Let_def split: option.splits)

text \<open>
  C3, as the spec words it: the class-token set of a node is its \<open>class\<close> value split
  on whitespace, every token trimmed, the empty ones dropped. The code splits with
  \<open>split(" ")\<close>, on the space U+0020 only. For the class value \<open>a\<close>, tab, \<open>b\<close> the
  spec's token set is \<open>{a, b}\<close>, while the code's has the one token \<open>a\<close>, tab, \<open>b\<close>,
  and the selector \<open>.a.b\<close> does not match the node.
\<close>

theorem class_set_tab_counterexample:
  "class_set node_a_tab_b = {[0x61, 0x09, 0x62]} \<and>
   spec_class_tokens node_a_tab_b = {[0x61], [0x62]} \<and>
   class_set node_a_tab_b \<noteq> spec_class_tokens node_a_tab_b \<and>
   \<not> Selector_match_node (Selector_from_str (str_of ''.a.b'')) node_a_tab_b"
proof -
  have 1: "class_set node_a_tab_b = {[0x61, 0x09, 0x62]}"
    by (auto simp: class_set_def node_a_tab_b_def str_of_def split_sep_def strip_def isspace_def)
  have 2: "spec_class_tokens node_a_tab_b = {[0x61], [0x62]}"
    by (auto simp: spec_class_tokens_def node_a_tab_b_def str_of_def strip_def isspace_def)
  have 3: "Selector_from_str (str_of ''.a.b'') = \<lparr>id' = [], klass = {[0x61], [0x62]}, tag = []\<rparr>"
    by (simp add: Selector_from_str_def str_of_def update_by_mode_def Selector_init_def insert_commute)
  have 4: "\<not> Selector_match_node (Selector_from_str (str_of ''.a.b'')) node_a_tab_b"
    by (simp add: 3 Selector_match_node_def 1)
  show ?thesis using 1 2 4 by simp
qed

text \<open>
  C3, amended: the class-token set of a node is its \<open>class\<close> value (the empty string
  when the attribute is missing) cut at every space U+0020, every piece stripped of
  whitespace, the empty ones dropped. The pieces joined by spaces give the value back
  and hold no space. When the value has no whitespace character but the space, this
  is the spec's token set; so a node with class \<open>a\<close>, three spaces, \<open>b\<close> matches \<open>.a.b\<close>.
  A node without \<open>class\<close> has the empty token set.
\<close>

theorem class_set_space_split:
  "class_set node =
     {strip t |t. t \<in> set (split_sep (of_char CHR '' '')
                     (case attributes node (str_of ''class'') of None \<Rightarrow> [] | Some v \<Rightarrow> v)) \<and>
                  strip t \<noteq> []} \<and>
   (attributes node (str_of ''class'') = Some v \<longrightarrow>
      join_sep (of_char CHR '' '') (split_sep (of_char CHR '' '') v) = v \<and>
      (\<forall>t \<in> set (split_sep (of_char CHR '' '') v). of_char CHR '' '' \<notin> set t)) \<and>
   (attributes node (str_of ''class'') = Some v \<and>
    (\<forall>c \<in> set v. isspace c \<longrightarrow> c = of_char CHR '' '') \<longrightarrow>
      class_set node = spec_class_tokens node) \<and>
   (attributes node (str_of ''class'') = Some (str_of ''a   b'') \<longrightarrow>
      Selector_match_node (Selector_from_str (str_of ''.a.b'')) node) \<and>
   (attributes node (str_of ''class'') = None \<longrightarrow> class_set node = {})"
proof -
  have 1: "class_set node =
     {strip t |t. t \<in> set (split_sep (of_char CHR '' '')
                     (case attributes node (str_of ''class'') of None \<Rightarrow> [] | Some v \<Rightarrow> v)) \<and>
                  strip t \<noteq> []}"
    by (auto simp: class_set_def Let_def)
  have 2: "join_sep (of_char CHR '' '') (split_sep (of_char CHR '' '') v) = v"
    by (simp add: split_sep_def join_split_acc)
  have 3: "\<forall>t \<in> set (split_sep (of_char CHR '' '') v). of_char CHR '' '' \<notin> set t"
    unfolding split_sep_def by (rule ballI, rule split_acc_no_sep [of _ "[]"]) simp_all
  have 4: "attributes node (str_of ''class'') = Some v \<and>
    (\<forall>c \<in> set v. isspace c \<longrightarrow> c = of_char CHR '' '') \<longrightarrow>
      class_set node = spec_class_tokens node"
    using class_set_agree [of v node] by blast
  have 5: "attributes node (str_of ''class'') = Some (str_of ''a   b'') \<longrightarrow>
      Selector_match_node (Selector_from_str (str_of ''.a.b'')) node"
    by (simp add: from_str_a_b Selector_match_node_def class_set_a_spaces_b)
  have 6: "attributes node (str_of ''class'') = None \<longrightarrow> class_set node = {}"
    by (simp add: class_set_None)
  from 1 2 3 4 5 6 show ?thesis by blast
qed

theorem class_set_space_split_witness:
  "class_set node_a_spaces_b = {str_of ''a'', str_of ''b''} \<and>
   class_set node_a_spaces_b = spec_class_tokens node_a_spaces_b \<and>
   split_sep (of_char CHR '' '') (str_of ''a   b'') = [str_of ''a'', [], [], str_of ''b''] \<and>
   Selector_match_node (Selector_from_str (str_of ''.a.b'')) node_a_spaces_b \<and>
   class_set (Node (str_of ''div'') Map.empty []) = {}"
proof -
  have a: "attributes node_a_spaces_b (str_of ''class'') = Some (str_of ''a   b'')"
    by (simp add: node_a_spaces_b_def)
  have b: "\<forall>c \<in> set (str_of ''a   b''). isspace c \<longrightarrow> c = of_char CHR '' ''"
    by (simp add: str_of_def isspace_def)
  have n: "attributes (Node (str_of ''div'') Map.empty []) (str_of ''class'') = None"
    by simp
  have 1: "class_set node_a_spaces_b = {str_of ''a'', str_of ''b''}"
    by (rule class_set_a_spaces_b [OF a])
  have 2: "class_set node_a_spaces_b = spec_class_tokens node_a_spaces_b"
    using class_set_space_split [of node_a_spaces_b "str_of ''a   b''"] a b by blast
  have 3: "split_sep (of_char CHR '' '') (str_of ''a   b'') = [str_of ''a'', [], [], str_of ''b'']"
    by (simp add: split_sep_def str_of_def)
  have 4: "Selector_match_node (Selector_from_str (str_of ''.a.b'')) node_a_spaces_b"
    using class_set_space_split [of node_a_spaces_b "str_of ''a   b''"] a by blast
  have 5: "class_set (Node (str_of ''div'') Map.empty []) = {}"
    using class_set_space_split [of "Node (str_of ''div'') Map.empty []" "[]"] n by blast
  from 1 2 3 4 5 show ?thesis by simp
qed

text \<open>
  C4. \<open>Selectors.from_str\<close> cuts the string at every comma (the pieces joined by
  commas give the string back and hold no comma), strips the whitespace around every
  piece (a piece is whitespace, then its stripped form, then whitespace, and the
  stripped form neither starts nor ends with whitespace) and parses every stripped
  piece on its own, in order. A piece of whitespace only, the empty one included,
  gives the universal selector. A selector list matches a node if and only if one of
  its selectors does.
\<close>

theorem Selectors_from_str_spec:
  "items (Selectors_from_str s)
     = map (\<lambda>p. Selector_from_str (strip p)) (split_sep (of_char CHR '','') s) \<and>
   join_sep (of_char CHR '','') (split_sep (of_char CHR '','') s) = s \<and>
   (\<forall>p \<in> set (split_sep (of_char CHR '','') s). of_char CHR '','' \<notin> set p) \<and>
   (\<exists>l r. piece = l @ strip piece @ r \<and> list_all isspace l \<and> list_all isspace r) \<and>
   (strip piece = [] \<or> (\<not> isspace (hd (strip piece)) \<and> \<not> isspace (last (strip piece)))) \<and>
   (list_all isspace piece \<longrightarrow>
      Selector_from_str (strip piece) = \<lparr>id' = [], klass = {}, tag = []\<rparr>) \<and>
   (Selectors_match_node sels node \<longleftrightarrow>
      (\<exists>sel \<in> set (items sels). Selector_match_node sel node))"
proof -
  have 1: "items (Selectors_from_str s)
     = map (\<lambda>p. Selector_from_str (strip p)) (split_sep (of_char CHR '','') s)"
    by (simp add: Selectors_from_str_def comp_def)
  have 2: "join_sep (of_char CHR '','') (split_sep (of_char CHR '','') s) = s"
    by (simp add: split_sep_def join_split_acc)
  have 3: "\<forall>p \<in> set (split_sep (of_char CHR '','') s). of_char CHR '','' \<notin> set p"
    unfolding split_sep_def by (rule ballI, rule split_acc_no_sep [of _ "[]"]) simp_all
  have 4: "list_all isspace piece \<longrightarrow>
      Selector_from_str (strip piece) = \<lparr>id' = [], klass = {}, tag = []\<rparr>"
    by (simp add: strip_all_space from_str_Nil Selector_init_def)
  from 1 2 3 4 strip_decomp [of piece] strip_ends [of piece] match_list_ex [of sels node]
  show ?thesis by blast
qed

theorem Selectors_from_str_spec_witness:
  "items (Selectors_from_str (str_of ''span, p''))
     = [\<lparr>id' = [], klass = {}, tag = str_of ''span''\<rparr>, \<lparr>id' = [], klass = {}, tag = str_of ''p''\<rparr>] \<and>
   split_sep (of_char CHR '','') (str_of ''span, p'') = [str_of ''span'', str_of '' p''] \<and>
   list_all isspace (str_of ''  '') \<and>
   Selector_from_str (strip (str_of ''  '')) = \<lparr>id' = [], klass = {}, tag = []\<rparr> \<and>
   Selectors_match_node (Selectors_from_str (str_of ''span, p'')) (Node (str_of ''p'') Map.empty []) \<and>
   \<not> Selectors_match_node (Selectors_from_str (str_of ''span, p'')) (Node (str_of ''div'') Map.empty [])"
proof -
  have sp: "split_sep (of_char CHR '','') (str_of ''span, p'') = [str_of ''span'', str_of '' p'']"
    by (simp add: split_sep_def str_of_def)
  have st: "strip (str_of ''span'') = str_of ''span''" "strip (str_of '' p'') = str_of ''p''"
    by (simp_all add: strip_def str_of_def isspace_def)
  have fs: "Selector_from_str (str_of ''span'') = \<lparr>id' = [], klass = {}, tag = str_of ''span''\<rparr>"
       "Selector_from_str (str_of ''p'') = \<lparr>id' = [], klass = {}, tag = str_of ''p''\<rparr>"
    by (simp_all add: Selector_from_str_def str_of_def update_by_mode_def Selector_init_def)
  have ws: "list_all isspace (str_of ''  '')"
    by (simp add: str_of_def isspace_def)
  note inst = Selectors_from_str_spec [of "str_of ''span, p''" "str_of ''  ''"
      "Selectors_from_str (str_of ''span, p'')" "Node (str_of ''p'') Map.empty []"]
  from inst have i0: "items (Selectors_from_str (str_of ''span, p''))
     = map (\<lambda>p. Selector_from_str (strip p)) (split_sep (of_char CHR '','') (str_of ''span, p''))"
    by blast
  have items: "items (Selectors_from_str (str_of ''span, p''))
     = [\<lparr>id' = [], klass = {}, tag = str_of ''span''\<rparr>, \<lparr>id' = [], klass = {}, tag = str_of ''p''\<rparr>]"
    unfolding i0 sp by (simp add: st fs)
  have univ: "Selector_from_str (strip (str_of ''  '')) = \<lparr>id' = [], klass = {}, tag = []\<rparr>"
    using inst ws by blast
  have m1: "Selectors_match_node (Selectors_from_str (str_of ''span, p'')) (Node (str_of ''p'') Map.empty [])"
    unfolding match_list_ex items by (simp add: Selector_match_node_def str_of_def)
  have m2: "\<not> Selectors_match_node (Selectors_from_str (str_of ''span, p'')) (Node (str_of ''div'') Map.empty [])"
    unfolding match_list_ex items by (simp add: Selector_match_node_def str_of_def)
  from items sp ws univ m1 m2 show ?thesis by simp
qed

text \<open>
  C5. Parsing a selector is total and deterministic: \<open>Selector.from_str\<close> has no
  failing operation and its loop runs once per character, so the model is a total
  function by structural recursion. For every string it yields exactly one selector,
  whose class set is finite as a Python set is, and for the empty string it yields the
  universal selector \<open>Selector()\<close>.
\<close>

theorem Selector_from_str_total:
  "(\<exists>!sel. Selector_from_str S = sel) \<and>
   finite (klass (Selector_from_str S)) \<and>
   Selector_from_str [] = \<lparr>id' = [], klass = {}, tag = []\<rparr>"
  using klass_from_str [of S] from_str_Nil by (simp add: Selector_init_def)

text \<open>
  C6. Flushing an empty accumulator changes nothing: \<open>update_by_mode\<close> with an empty
  buffer returns the selector as it was. So \<open>div\<close>, \<open>div.\<close> and \<open>div..\<close> all parse to
  the selector with tag \<open>div\<close> and no class, and no parse puts the empty string into
  the class set.
\<close>

theorem update_by_mode_empty_noop:
  "update_by_mode sel mode [] = (sel, []) \<and>
   Selector_from_str (str_of ''div'') = \<lparr>id' = [], klass = {}, tag = str_of ''div''\<rparr> \<and>
   Selector_from_str (str_of ''div.'') = \<lparr>id' = [], klass = {}, tag = str_of ''div''\<rparr> \<and>
   Selector_from_str (str_of ''div..'') = \<lparr>id' = [], klass = {}, tag = str_of ''div''\<rparr> \<and>
   [] \<notin> klass (Selector_from_str S)"
proof -
  have 1: "update_by_mode sel mode [] = (sel, [])"
    by (rule update_by_mode_Nil)
  have 2: "Selector_from_str (str_of ''div'') = \<lparr>id' = [], klass = {}, tag = str_of ''div''\<rparr>"
    by (simp add: Selector_from_str_def str_of_def update_by_mode_def Selector_init_def)
  have 3: "Selector_from_str (str_of ''div.'') = \<lparr>id' = [], klass = {}, tag = str_of ''div''\<rparr>"
    by (simp add: Selector_from_str_def str_of_def update_by_mode_def Selector_init_def)
  have 4: "Selector_from_str (str_of ''div..'') = \<lparr>id' = [], klass = {}, tag = str_of ''div''\<rparr>"
    by (simp add: Selector_from_str_def str_of_def update_by_mode_def Selector_init_def)
  from 1 2 3 4 klass_from_str [of S] show ?thesis
    by simp
qed

text \<open>
  C7. The order of the class run and the id run does not matter: for a tag \<open>t\<close>, a
  class \<open>c\<close> and an id \<open>i\<close> without \<open>.\<close> and \<open>#\<close>, the strings \<open>t.c#i\<close> and \<open>t#i.c\<close> parse
  to the same selector. \<open>div.container#topDiv\<close> and \<open>div#topDiv.container\<close> both give
  tag \<open>div\<close>, id \<open>topDiv\<close> and the class set \<open>{container}\<close>.
\<close>

theorem from_str_order_independent:
  "((\<forall>ch \<in> set t \<union> set c \<union> set i. ch \<noteq> of_char CHR ''.'' \<and> ch \<noteq> of_char CHR ''#'') \<longrightarrow>
      Selector_from_str (t @ of_char CHR ''.'' # c @ of_char CHR ''#'' # i)
    = Selector_from_str (t @ of_char CHR ''#'' # i @ of_char CHR ''.'' # c)) \<and>
   Selector_from_str (str_of ''div.container#topDiv'')
     = \<lparr>id' = str_of ''topDiv'', klass = {str_of ''container''}, tag = str_of ''div''\<rparr> \<and>
   Selector_from_str (str_of ''div#topDiv.container'')
     = \<lparr>id' = str_of ''topDiv'', klass = {str_of ''container''}, tag = str_of ''div''\<rparr>"
proof -
  have 1: "Selector_from_str (str_of ''div.container#topDiv'')
     = \<lparr>id' = str_of ''topDiv'', klass = {str_of ''container''}, tag = str_of ''div''\<rparr>"
    by (simp add: Selector_from_str_def str_of_def update_by_mode_def Selector_init_def)
  have 2: "Selector_from_str (str_of ''div#topDiv.container'')
     = \<lparr>id' = str_of ''topDiv'', klass = {str_of ''container''}, tag = str_of ''div''\<rparr>"
    by (simp add: Selector_from_str_def str_of_def update_by_mode_def Selector_init_def)
  from 1 2 from_str_order [of t c i] show ?thesis by blast
qed

theorem from_str_order_independent_witness:
  "Selector_from_str (str_of ''p.note#first'') = Selector_from_str (str_of ''p#first.note'') \<and>
   Selector_from_str (str_of ''p.note#first'')
     = \<lparr>id' = str_of ''first'', klass = {str_of ''note''}, tag = str_of ''p''\<rparr>"
proof -
  have h: "\<forall>ch \<in> set (str_of ''p'') \<union> set (str_of ''note'') \<union> set (str_of ''first'').
            ch \<noteq> of_char CHR ''.'' \<and> ch \<noteq> of_char CHR ''#''"
    by (simp add: str_of_def)
  have "Selector_from_str (str_of ''p'' @ of_char CHR ''.'' # str_of ''note'' @ of_char CHR ''#'' # str_of ''first'')
      = Selector_from_str (str_of ''p'' @ of_char CHR ''#'' # str_of ''first'' @ of_char CHR ''.'' # str_of ''note'')"
    using from_str_order_independent [of "str_of ''p''" "str_of ''note''" "str_of ''first''"] h
    by blast
  then have 1: "Selector_from_str (str_of ''p.note#first'') = Selector_from_str (str_of ''p#first.note'')"
    by (simp add: str_of_def)
  have 2: "Selector_from_str (str_of ''p.note#first'')
     = \<lparr>id' = str_of ''first'', klass = {str_of ''note''}, tag = str_of ''p''\<rparr>"
    by (simp add: Selector_from_str_def str_of_def update_by_mode_def Selector_init_def)
  from 1 2 show ?thesis by simp
qed

text \<open>
  C8. The selector with empty tag, empty id and empty class set matches every node,
  and \<open>query_selector_all\<close> with the empty selector string returns every node of the
  tree, the root first, in pre-order: the nodes at all the positions of the tree.
\<close>

theorem universal_selector_matches_all:
  "Selector_match_node \<lparr>id' = [], klass = {}, tag = []\<rparr> node \<and>
   query_selector_all root [] = spec_preorder root \<and>
   map Some (query_selector_all root []) = map (node_at root) (spec_positions root) \<and>
   hd (query_selector_all root []) = root"
proof -
  have 1: "Selector_match_node \<lparr>id' = [], klass = {}, tag = []\<rparr> node"
    using match_universal [of node] by (simp add: Selector_init_def)
  have 2: "query_selector_all root [] = spec_preorder root"
    by (rule query_empty)
  have 3: "map Some (query_selector_all root []) = map (node_at root) (spec_positions root)"
    by (simp only: 2 map_node_at)
  have 4: "hd (query_selector_all root []) = root"
    unfolding 2 by (cases root) simp
  from 1 2 3 4 show ?thesis by simp
qed

text \<open>
  C9. A query never changes a node. On the store, whenever
  \<open>query_selector_all\<close> returns, every object that was in the store before the
  call, so every node's tag, attribute mapping and list of children, is the same
  object after it: the store has only grown by the result list, at a fresh address.
  And the query does return: when the store holds a tree at the root address, as the
  store \<open>alloc\<close> lays out for any tree does, enough fuel gives a result, and the
  result list holds the addresses of the nodes that \<open>query_selector_all\<close> finds in
  the tree. Of a node, the match test reads the tag and the attributes \<open>id\<close> and
  \<open>class\<close> and nothing else: two nodes that agree on these match the same selector
  lists.
\<close>

theorem query_selector_all_st_frame:
  "(query_selector_all_st fuel h root s = Inr (res, h') \<longrightarrow>
      res = length h \<and> length h' = Suc (length h) \<and> take (length h) h' = h) \<and>
   (tree_at h root t \<and> fuel_for t \<le> fuel \<longrightarrow>
      (\<exists>addrs. query_selector_all_st fuel h root s = Inr (length h, h @ [List_obj addrs]) \<and>
         list_all2 (tree_at h) addrs (query_selector_all t s))) \<and>
   tree_at (snd (alloc t [])) (fst (alloc t [])) t \<and>
   (Node.tag n = Node.tag n' \<and>
    attributes n (str_of ''id'') = attributes n' (str_of ''id'') \<and>
    attributes n (str_of ''class'') = attributes n' (str_of ''class'') \<longrightarrow>
      Selectors_match_node sels n = Selectors_match_node sels n')"
  using query_selector_all_st_frame_gen [of fuel h root s res h']
    query_selector_all_st_tree [of h root t fuel s]
    alloc_tree_at(1) [of t "[]" "fst (alloc t [])" "snd (alloc t [])"]
    match_node_reads(2) [of n n' sels]
  by auto

theorem query_selector_all_st_frame_witness:
  "alloc example_tree [] = (5, example_store) \<and>
   tree_at example_store 5 example_tree \<and> fuel_for example_tree \<le> 5 \<and>
   query_selector_all_st 5 example_store 5 (str_of ''span, p'')
     = Inr (6, example_store @ [List_obj [1, 3]]) \<and>
   take (length example_store) (example_store @ [List_obj [1, 3]]) = example_store \<and>
   list_all2 (tree_at example_store) [1, 3] (query_selector_all example_tree (str_of ''span, p'')) \<and>
   Selectors_match_node (Selectors_from_str (str_of ''span, p''))
       (Node (str_of ''p'') [str_of ''class'' \<mapsto> str_of ''note''] [])
     = Selectors_match_node (Selectors_from_str (str_of ''span, p''))
         (Node (str_of ''p'') [str_of ''class'' \<mapsto> str_of ''note'', str_of ''title'' \<mapsto> str_of ''x'']
            [Node (str_of ''span'') Map.empty []])"
proof -
  have five: "5 = Suc (Suc (Suc (Suc (Suc 0))))" by simp
  have run: "query_selector_all_st 5 example_store 5 (str_of ''span, p'')
     = Inr (6, example_store @ [List_obj [1, 3]])"
    by (subst five) (rule example_run)
  have al: "alloc example_tree [] = (5, example_store)"
    by (simp add: example_tree_def example_store_def)
  have fuel: "fuel_for example_tree \<le> 5" by (simp add: example_fuel)
  let ?n = "Node (str_of ''p'') [str_of ''class'' \<mapsto> str_of ''note''] []"
  let ?n' = "Node (str_of ''p'') [str_of ''class'' \<mapsto> str_of ''note'', str_of ''title'' \<mapsto> str_of ''x'']
            [Node (str_of ''span'') Map.empty []]"
  note inst = query_selector_all_st_frame [of 5 example_store 5 "str_of ''span, p''" 6
      "example_store @ [List_obj [1, 3]]" example_tree ?n ?n'
      "Selectors_from_str (str_of ''span, p'')"]
  have agree: "Node.tag ?n = Node.tag ?n' \<and>
      attributes ?n (str_of ''id'') = attributes ?n' (str_of ''id'') \<and>
      attributes ?n (str_of ''class'') = attributes ?n' (str_of ''class'')"
    by (simp add: str_of_def)
  from inst agree have reads: "Selectors_match_node (Selectors_from_str (str_of ''span, p'')) ?n
      = Selectors_match_node (Selectors_from_str (str_of ''span, p'')) ?n'"
    by blast
  from inst al have tree: "tree_at example_store 5 example_tree"
    by simp
  from inst run have frame: "take (length example_store) (example_store @ [List_obj [1, 3]]) = example_store"
    by blast
  from inst tree fuel obtain addrs where
    a: "query_selector_all_st 5 example_store 5 (str_of ''span, p'')
          = Inr (length example_store, example_store @ [List_obj addrs])"
    and b: "list_all2 (tree_at example_store) addrs (query_selector_all example_tree (str_of ''span, p''))"
    by blast
  from a run have "addrs = [1, 3]" by simp
  with b have res: "list_all2 (tree_at example_store) [1, 3]
      (query_selector_all example_tree (str_of ''span, p''))"
    by simp
  from al tree fuel run frame res reads show ?thesis by simp
qed

text \<open>
  C10. For every input string, the empty one included, the parsed selector list has
  at least one selector: one more than the string has commas. The match test of a
  parsed list is never the disjunction over no selector.
\<close>

theorem Selectors_from_str_nonempty:
  "items (Selectors_from_str s) \<noteq> [] \<and>
   length (items (Selectors_from_str s)) = Suc (count_list s (of_char CHR '',''))"
  by (simp add: Selectors_from_str_def split_sep_def split_acc_ne length_split_acc)

end
